theory Spec2Isabelle
  imports Main "HOL-Library.AList" "HOL-Library.Sublist"
begin

section \<open>Values exchanged by the handlers and the client\<close>

text \<open>
  The Python values that travel between the handlers, the codec and the client:
  \<open>None\<close>, booleans, integers, strings, lists and dictionaries with string keys.
  A dictionary is an association list in insertion order, as Python dictionaries
  iterate; its keys are pairwise distinct.  Integers are unbounded.  A string is a list of
  characters, each standing for the code point of its number (0 to 255).  Floating-point
  numbers are not part of the model.
\<close>

datatype json =
    JNull
  | JBool bool
  | JInt int
  | JStr string
  | JList "json list"
  | JDict "(string \<times> json) list"

text \<open>
  A value as Python can hold it: the keys of every dictionary, at every depth, are pairwise
  distinct.
\<close>

fun well_formed :: "json \<Rightarrow> bool" where
  "well_formed (JList xs) = (\<forall>x \<in> set xs. well_formed x)"
| "well_formed (JDict kvs) = (distinct (map fst kvs) \<and> (\<forall>kv \<in> set kvs. well_formed (snd kv)))"
| "well_formed _ = True"

abbreviation apostrophe :: char where
  "apostrophe \<equiv> CHR 0x27"

abbreviation dquote :: char where
  "dquote \<equiv> CHR 0x22"

abbreviation backslash :: char where
  "backslash \<equiv> CHR 0x5C"

abbreviation newline :: char where
  "newline \<equiv> CHR 0x0A"

text \<open>Exceptions that the modelled code can raise, as values.\<close>

datatype py_exception =
    NoResponse          \<comment> \<open>\<open>Exception("No response from server")\<close>\<close>
  | ServerError json    \<comment> \<open>\<open>Exception(f"Server error: {response['error']}")\<close>, with the payload\<close>
  | JSONDecodeError
  | RecursionError      \<comment> \<open>the call bound of the scanner is exhausted\<close>
  | TypeError
  | AttributeError
  | Unmodelled          \<comment> \<open>no exception: the input lies outside the model (see below)\<close>

text \<open>Field lookup in a dictionary value; \<open>None\<close> for a missing key or another kind of value.\<close>

fun dict_get :: "json \<Rightarrow> string \<Rightarrow> json option" where
  "dict_get (JDict kvs) k = map_of kvs k"
| "dict_get _ k = None"

text \<open>Python truthiness, as used by \<open>params or {}\<close>.\<close>

fun truthy :: "json \<Rightarrow> bool" where
  "truthy JNull = False"
| "truthy (JBool b) = b"
| "truthy (JInt i) = (i \<noteq> 0)"
| "truthy (JStr s) = (s \<noteq> [])"
| "truthy (JList xs) = (xs \<noteq> [])"
| "truthy (JDict kvs) = (kvs \<noteq> [])"

section \<open>The structured-data serialization used by the message codec\<close>

text \<open>
  Modelled from the spec: the structured-data (JSON) serialization and parsing that the
  codec delegates to \<open>json.dumps\<close> and \<open>json.loads\<close> of the Python standard library,
  whose code is not part of the repository.  The spec fixes the wire format as one
  JSON-RPC-2.0-shaped object per line; the definitions below follow the library's default
  behaviour: separators \<open>", "\<close> and \<open>": "\<close>, every character outside the printable ASCII
  range escaped, whitespace \<open>" \t\n\r"\<close> skipped between tokens when parsing, the last
  value kept for a repeated key.  Outside the model, and reported as \<open>Unmodelled\<close> when
  parsing: number literals with a fraction or an exponent and the constants \<open>NaN\<close>,
  \<open>Infinity\<close>, \<open>-Infinity\<close> (Python floats), and \<open>\u\<close> escapes of code points above 255.
\<close>

definition hexdigit :: "nat \<Rightarrow> char" where
  "hexdigit n = ''0123456789abcdef'' ! (n mod 16)"

definition escape_char :: "char \<Rightarrow> string" where
  "escape_char c =
     (if c = backslash then [backslash, backslash]
      else if c = dquote then [backslash, dquote]
      else if c = CHR 0x08 then [backslash, CHR ''b'']
      else if c = CHR 0x0C then [backslash, CHR ''f'']
      else if c = CHR 0x0A then [backslash, CHR ''n'']
      else if c = CHR 0x0D then [backslash, CHR ''r'']
      else if c = CHR 0x09 then [backslash, CHR ''t'']
      else if (0x20::nat) \<le> of_char c \<and> of_char c \<le> (0x7E::nat) then [c]
      else [backslash, CHR ''u'', CHR ''0'', CHR ''0'',
            hexdigit (of_char c div 16), hexdigit (of_char c mod 16)])"

definition encode_basestring_ascii :: "string \<Rightarrow> string" where
  "encode_basestring_ascii s = dquote # concat (map escape_char s) @ [dquote]"

fun str_nat :: "nat \<Rightarrow> string" where
  "str_nat n =
     (if n < 10 then [char_of (48 + n)]
      else str_nat (n div 10) @ [char_of (48 + n mod 10)])"

declare str_nat.simps [simp del]

definition str_int :: "int \<Rightarrow> string" where
  "str_int i = (if i < 0 then CHR ''-'' # str_nat (nat (- i)) else str_nat (nat i))"

fun join :: "string \<Rightarrow> string list \<Rightarrow> string" where
  "join sep [] = []"
| "join sep [x] = x"
| "join sep (x # y # ys) = x @ sep @ join sep (y # ys)"

fun json_dumps :: "json \<Rightarrow> string" where
  "json_dumps JNull = ''null''"
| "json_dumps (JBool b) = (if b then ''true'' else ''false'')"
| "json_dumps (JInt i) = str_int i"
| "json_dumps (JStr s) = encode_basestring_ascii s"
| "json_dumps (JList xs) = ''['' @ join '', '' (map json_dumps xs) @ '']''"
| "json_dumps (JDict kvs) =
     ''{'' @ join '', '' (map (\<lambda>kv. encode_basestring_ascii (fst kv) @ '': '' @ json_dumps (snd kv)) kvs)
       @ ''}''"

definition is_ws :: "char \<Rightarrow> bool" where
  "is_ws c = (c = CHR 0x20 \<or> c = CHR 0x09 \<or> c = CHR 0x0A \<or> c = CHR 0x0D)"

definition skip_ws :: "string \<Rightarrow> string" where
  "skip_ws s = dropWhile is_ws s"

definition is_digit :: "char \<Rightarrow> bool" where
  "is_digit c = ((48::nat) \<le> of_char c \<and> of_char c \<le> (57::nat))"

definition nat_of_digits :: "string \<Rightarrow> nat" where
  "nat_of_digits ds = foldl (\<lambda>a c. 10 * a + (of_char c - 48)) 0 ds"

definition hexval :: "char \<Rightarrow> nat option" where
  "hexval c =
     (let n = (of_char c :: nat) in
      if 48 \<le> n \<and> n \<le> 57 then Some (n - 48)
      else if 97 \<le> n \<and> n \<le> 102 then Some (n - 87)
      else if 65 \<le> n \<and> n \<le> 70 then Some (n - 55)
      else None)"

definition unescape :: "char \<Rightarrow> char option" where
  "unescape e =
     (if e = dquote then Some dquote
      else if e = backslash then Some backslash
      else if e = CHR ''/'' then Some CHR ''/''
      else if e = CHR ''b'' then Some (CHR 0x08)
      else if e = CHR ''f'' then Some (CHR 0x0C)
      else if e = CHR ''n'' then Some (CHR 0x0A)
      else if e = CHR ''r'' then Some (CHR 0x0D)
      else if e = CHR ''t'' then Some (CHR 0x09)
      else None)"

text \<open>
  \<open>scanstring acc s\<close> reads a string literal whose opening quote has been consumed; \<open>acc\<close>
  holds the characters read so far.  A raw control character, an unknown escape and a
  missing closing quote are errors.
\<close>

fun scanstring :: "string \<Rightarrow> string \<Rightarrow> py_exception + (string \<times> string)" where
  "scanstring acc [] = Inl JSONDecodeError"
| "scanstring acc (c # cs) =
     (if c = dquote then Inr (acc, cs)
      else if c = backslash then
        (case cs of
           [] \<Rightarrow> Inl JSONDecodeError
         | e # es \<Rightarrow>
             if e = CHR ''u'' then
               (case es of
                  h1 # h2 # h3 # h4 # rest \<Rightarrow>
                    (case (hexval h1, hexval h2, hexval h3, hexval h4) of
                       (Some a, Some b, Some x, Some y) \<Rightarrow>
                         if a = 0 \<and> b = 0 then scanstring (acc @ [char_of (16 * x + y)]) rest
                         else Inl Unmodelled
                     | _ \<Rightarrow> Inl JSONDecodeError)
                | _ \<Rightarrow> Inl JSONDecodeError)
             else
               (case unescape e of
                  None \<Rightarrow> Inl JSONDecodeError
                | Some ch \<Rightarrow> scanstring (acc @ [ch]) es))
      else if (of_char c :: nat) < 0x20 then Inl JSONDecodeError
      else scanstring (acc @ [c]) cs)"

text \<open>
  The number pattern \<open>(-?(?:0|[1-9]\d*))(\.\d+)?([eE][-+]?\d+)?\<close>: \<open>is_float_tail\<close>
  tells whether a fraction or an exponent follows the integer part.
\<close>

definition is_float_tail :: "string \<Rightarrow> bool" where
  "is_float_tail s =
     (case s of
        c # d # r \<Rightarrow>
          (c = CHR ''.'' \<and> is_digit d)
          \<or> ((c = CHR ''e'' \<or> c = CHR ''E'')
              \<and> (is_digit d
                  \<or> ((d = CHR ''+'' \<or> d = CHR ''-'') \<and> (case r of x # _ \<Rightarrow> is_digit x | [] \<Rightarrow> False))))
      | _ \<Rightarrow> False)"

definition number_result :: "bool \<Rightarrow> string \<Rightarrow> string \<Rightarrow> py_exception + (json \<times> string)" where
  "number_result neg ds rest =
     (if is_float_tail rest then Inl Unmodelled
      else Inr (JInt (if neg then - int (nat_of_digits ds) else int (nat_of_digits ds)), rest))"

definition match_number :: "string \<Rightarrow> (py_exception + (json \<times> string)) option" where
  "match_number s =
     (let (neg, s1) = (case s of [] \<Rightarrow> (False, s)
                       | c # r \<Rightarrow> if c = CHR ''-'' then (True, r) else (False, s))
      in case s1 of
           [] \<Rightarrow> None
         | d # r \<Rightarrow>
             if d = CHR ''0'' then Some (number_result neg [d] r)
             else if is_digit d
               then Some (number_result neg (d # takeWhile is_digit r) (dropWhile is_digit r))
             else None)"

text \<open>
  The scanner.  Its first argument bounds the number of nested and repeated calls;
  \<open>json_loads\<close> starts it with more than twice the length of the text, a bound that is
  never exhausted (lemma \<open>json_loads_never_exhausted\<close>), so that \<open>json_loads\<close> never
  yields \<open>RecursionError\<close>; the recursion limit that Python applies to deeply nested text
  is not modelled.  \<open>array_loop\<close> runs after
  an opening bracket that is not followed by \<open>]\<close>; \<open>object_loop\<close> runs just behind the
  opening quote of a key.
\<close>

fun scan_once :: "nat \<Rightarrow> string \<Rightarrow> py_exception + (json \<times> string)"
  and array_loop :: "nat \<Rightarrow> json list \<Rightarrow> string \<Rightarrow> py_exception + (json \<times> string)"
  and object_loop :: "nat \<Rightarrow> (string \<times> json) list \<Rightarrow> string \<Rightarrow> py_exception + (json \<times> string)"
where
  "scan_once 0 s = Inl RecursionError"
| "scan_once (Suc n) s =
     (case s of
        [] \<Rightarrow> Inl JSONDecodeError
      | c # r \<Rightarrow>
          if c = dquote then
            (case scanstring [] r of
               Inl e \<Rightarrow> Inl e
             | Inr (str, rest) \<Rightarrow> Inr (JStr str, rest))
          else if c = CHR 0x7B then
            (case skip_ws r of
               [] \<Rightarrow> Inl JSONDecodeError
             | c' # r' \<Rightarrow>
                 if c' = CHR 0x7D then Inr (JDict [], r')
                 else if c' = dquote then object_loop n [] r'
                 else Inl JSONDecodeError)
          else if c = CHR 0x5B then
            (case skip_ws r of
               [] \<Rightarrow> Inl JSONDecodeError
             | c' # r' \<Rightarrow>
                 if c' = CHR 0x5D then Inr (JList [], r')
                 else array_loop n [] (c' # r'))
          else if take 4 s = ''null'' then Inr (JNull, drop 4 s)
          else if take 4 s = ''true'' then Inr (JBool True, drop 4 s)
          else if take 5 s = ''false'' then Inr (JBool False, drop 5 s)
          else
            (case match_number s of
               Some res \<Rightarrow> res
             | None \<Rightarrow>
                 if take 3 s = ''NaN'' \<or> take 8 s = ''Infinity'' \<or> take 9 s = ''-Infinity''
                 then Inl Unmodelled
                 else Inl JSONDecodeError))"
| "array_loop 0 values s = Inl RecursionError"
| "array_loop (Suc n) values s =
     (case scan_once n s of
        Inl e \<Rightarrow> Inl e
      | Inr (v, r) \<Rightarrow>
          (case skip_ws r of
             [] \<Rightarrow> Inl JSONDecodeError
           | c # r' \<Rightarrow>
               if c = CHR 0x5D then Inr (JList (values @ [v]), r')
               else if c = CHR '','' then array_loop n (values @ [v]) (skip_ws r')
               else Inl JSONDecodeError))"
| "object_loop 0 pairs s = Inl RecursionError"
| "object_loop (Suc n) pairs s =
     (case scanstring [] s of
        Inl e \<Rightarrow> Inl e
      | Inr (key, r1) \<Rightarrow>
          (case skip_ws r1 of
             [] \<Rightarrow> Inl JSONDecodeError
           | c # r2 \<Rightarrow>
               if c \<noteq> CHR '':'' then Inl JSONDecodeError
               else
                 (case scan_once n (skip_ws r2) of
                    Inl e \<Rightarrow> Inl e
                  | Inr (v, r3) \<Rightarrow>
                      (case skip_ws r3 of
                         [] \<Rightarrow> Inl JSONDecodeError
                       | c' # r4 \<Rightarrow>
                           if c' = CHR 0x7D then Inr (JDict (AList.update key v pairs), r4)
                           else if c' = CHR '','' then
                             (case skip_ws r4 of
                                [] \<Rightarrow> Inl JSONDecodeError
                              | q # r5 \<Rightarrow>
                                  if q = dquote then object_loop n (AList.update key v pairs) r5
                                  else Inl JSONDecodeError)
                           else Inl JSONDecodeError))))"

definition json_loads :: "string \<Rightarrow> py_exception + json" where
  "json_loads s =
     (case scan_once (Suc (2 * length s)) (skip_ws s) of
        Inl e \<Rightarrow> Inl e
      | Inr (obj, rest) \<Rightarrow> if skip_ws rest = [] then Inr obj else Inl JSONDecodeError)"

section \<open>The client (my-first-mcp-server/mcp-client.py)\<close>

text \<open>
  The server process as the client sees it: the byte strings written to its standard
  input so far, oldest first, and the byte strings that the coming \<open>readline\<close> calls on
  its standard output will return, in order.  \<open>readline\<close> returns the empty byte string
  once nothing is left.  A read that never returns is not modelled.
\<close>

record process =
  stdin_written :: "string list"
  stdout_pending :: "string list"

record client =
  server_script :: string
  process :: "process option"
  message_id :: int

definition init :: "string \<Rightarrow> client" where
  "init script = \<lparr>server_script = script, process = None, message_id = 0\<rparr>"

definition get_next_id :: "client \<Rightarrow> int \<times> client" where
  "get_next_id self =
     (let self' = self\<lparr>message_id := message_id self + 1\<rparr> in (message_id self', self'))"

definition readline :: "process \<Rightarrow> string \<times> process" where
  "readline p =
     (case stdout_pending p of
        [] \<Rightarrow> ([], p)
      | l # ls \<Rightarrow> (l, p\<lparr>stdout_pending := ls\<rparr>))"

text \<open>
  \<open>str.encode()\<close> (UTF-8) on code points up to 255, and \<open>bytes.decode()\<close>: ASCII bytes
  decode to themselves; other bytes are outside the model.
\<close>

definition str_encode :: "string \<Rightarrow> string" where
  "str_encode s =
     concat (map (\<lambda>c. if (of_char c :: nat) < 0x80 then [c]
                       else [char_of (0xC0 + of_char c div (64::nat)),
                             char_of (0x80 + of_char c mod (64::nat))]) s)"

definition bytes_decode :: "string \<Rightarrow> py_exception + string" where
  "bytes_decode bs = (if list_all (\<lambda>b. (of_char b :: nat) < 0x80) bs then Inr bs else Inl Unmodelled)"

text \<open>\<open>str.strip()\<close>: the characters up to code point 255 that \<open>str.isspace\<close> accepts.\<close>

definition isspace :: "char \<Rightarrow> bool" where
  "isspace c =
     (let n = (of_char c :: nat) in
      (9 \<le> n \<and> n \<le> 13) \<or> (28 \<le> n \<and> n \<le> 32) \<or> n = 0x85 \<or> n = 0xA0)"

definition strip :: "string \<Rightarrow> string" where
  "strip s = rev (dropWhile isspace (rev (dropWhile isspace s)))"

text \<open>The two halves of the codec as \<open>send_message\<close> performs them (lines 73-74 and 82).\<close>

definition encode :: "json \<Rightarrow> string" where
  "encode message = str_encode (json_dumps message @ [newline])"

definition decode :: "string \<Rightarrow> py_exception + json" where
  "decode response_line =
     (case bytes_decode response_line of
        Inl e \<Rightarrow> Inl e
      | Inr text \<Rightarrow> json_loads (strip text))"

text \<open>
  Lines 84-87: \<open>"error" in response\<close>, \<open>response['error']\<close> and
  \<open>response.get("result", {})\<close> on each kind of decoded value.  On a list, \<open>in\<close> is
  membership and indexing by a string raises \<open>TypeError\<close>; on a string, \<open>in\<close> is the
  substring test; neither has \<open>get\<close>.  The other values do not support \<open>in\<close>.
\<close>

fun check_response :: "json \<Rightarrow> py_exception + json" where
  "check_response (JDict kvs) =
     (case map_of kvs ''error'' of
        Some payload \<Rightarrow> Inl (ServerError payload)
      | None \<Rightarrow> Inr (case map_of kvs ''result'' of Some r \<Rightarrow> r | None \<Rightarrow> JDict []))"
| "check_response (JList xs) =
     (if JStr ''error'' \<in> set xs then Inl TypeError else Inl AttributeError)"
| "check_response (JStr s) =
     (if sublist ''error'' s then Inl TypeError else Inl AttributeError)"
| "check_response _ = Inl TypeError"

definition request :: "int \<Rightarrow> string \<Rightarrow> json \<Rightarrow> json" where
  "request i method params =
     JDict [(''jsonrpc'', JStr ''2.0''), (''id'', JInt i), (''method'', JStr method),
            (''params'', if truthy params then params else JDict [])]"

text \<open>
  \<open>send_message\<close>: \<open>params\<close> is \<open>JNull\<close> for Python's \<open>None\<close>.  The id is taken before
  anything can fail; \<open>self.process\<close> being \<open>None\<close> raises \<open>AttributeError\<close> at the write.
\<close>

definition send_message :: "client \<Rightarrow> string \<Rightarrow> json \<Rightarrow> (py_exception + json) \<times> client" where
  "send_message self method params =
     (let (i, self1) = get_next_id self;
          message = request i method params
      in case process self1 of
           None \<Rightarrow> (Inl AttributeError, self1)
         | Some p \<Rightarrow>
             (let p1 = p\<lparr>stdin_written := stdin_written p @ [encode message]\<rparr>;
                  (response_line, p2) = readline p1;
                  self2 = self1\<lparr>process := Some p2\<rparr>
              in if response_line = [] then (Inl NoResponse, self2)
                 else (case decode response_line of
                         Inl e \<Rightarrow> (Inl e, self2)
                       | Inr response \<Rightarrow> (check_response response, self2))))"

definition initialize :: "client \<Rightarrow> (py_exception + json) \<times> client" where
  "initialize self =
     send_message self ''initialize''
       (JDict [(''protocolVersion'', JStr ''2024-11-05''),
               (''capabilities'', JDict [(''roots'', JDict [(''listChanged'', JBool True)]),
                                         (''sampling'', JDict [])]),
               (''clientInfo'', JDict [(''name'', JStr ''simple-todo-client''),
                                       (''version'', JStr ''1.0.0'')])])"


section \<open>The to-do server (my-first-mcp-server/mcp-server.py)\<close>

text \<open>
  The global \<open>todos\<close> dictionary maps a todo id to
  \<open>{"title": str, "completed": bool, "created_at": str}\<close>.  Every handler takes the
  current dictionary and returns its return value together with the dictionary it leaves
  behind.
\<close>

record todo =
  title :: string
  completed :: bool
  created_at :: string

type_synonym todos = "(string \<times> todo) list"



definition delete_todo :: "string \<Rightarrow> todos \<Rightarrow> string \<times> todos" where
  "delete_todo todo_id ts =
     (case map_of ts todo_id of
        Some t \<Rightarrow> (''Todo '' @ [apostrophe] @ title t @ [apostrophe] @ '' deleted.'',
                   AList.delete todo_id ts)
      | None \<Rightarrow> (''Todo not found.'', ts))"

text \<open>The dictionary \<open>{"id": todo_id, **info}\<close> built by both resource handlers.\<close>

definition todo_dict :: "string \<Rightarrow> todo \<Rightarrow> json" where
  "todo_dict todo_id info =
     JDict [(''id'', JStr todo_id), (''title'', JStr (title info)),
            (''completed'', JBool (completed info)), (''created_at'', JStr (created_at info))]"

definition list_todos :: "todos \<Rightarrow> json list \<times> todos" where
  "list_todos ts = (map (\<lambda>(todo_id, info). todo_dict todo_id info) ts, ts)"

definition get_todo :: "string \<Rightarrow> todos \<Rightarrow> json \<times> todos" where
  "get_todo todo_id ts =
     (case map_of ts todo_id of
        None \<Rightarrow> (JDict [(''error'', JStr ''Todo not found'')], ts)
      | Some t \<Rightarrow> (todo_dict todo_id t, ts))"

definition greet :: "string \<Rightarrow> todos \<Rightarrow> string \<times> todos" where
  "greet name ts = (''Hello, '' @ name @ ''! Welcome to your todo manager.'', ts)"


section \<open>The prompt of basic-mcp/server.py\<close>

text \<open>
  \<open>debug_error\<close> returns a list of three set displays \<open>{role, text}\<close>: Python sets of
  strings.
\<close>

definition debug_error :: "string \<Rightarrow> string set list" where
  "debug_error error =
     [{''user'', ''I'' @ [apostrophe] @ ''m seeing this error''},
      {''user'', error},
      {''assistant'', ''I'' @ [apostrophe] @ ''ll help debug that, what have you tried so far?''}]"

section \<open>Notions used in the proofs about the serialization\<close>

text \<open>
  What can follow a value in serialized text (\<open>value_end\<close>), how serialized text begins
  (\<open>value_start\<close>), the characters that serialized text consists of (\<open>printable\<close>), and
  one key-value item of a serialized dictionary.
\<close>

definition value_end :: "string \<Rightarrow> bool" where
  "value_end rest =
     (case rest of [] \<Rightarrow> True | c # _ \<Rightarrow> c = CHR '','' \<or> c = CHR 0x5D \<or> c = CHR 0x7D)"

definition value_start :: "string \<Rightarrow> bool" where
  "value_start s =
     (case s of [] \<Rightarrow> False
      | c # _ \<Rightarrow> c = dquote \<or> c = CHR 0x7B \<or> c = CHR 0x5B \<or> c = CHR ''n'' \<or> c = CHR ''t''
                 \<or> c = CHR ''f'' \<or> c = CHR ''-'' \<or> is_digit c)"

definition printable :: "char \<Rightarrow> bool" where
  "printable c = ((0x20::nat) \<le> of_char c \<and> of_char c \<le> (0x7E::nat))"

abbreviation item :: "string \<times> json \<Rightarrow> string" where
  "item kv \<equiv> encode_basestring_ascii (fst kv) @ '': '' @ json_dumps (snd kv)"

text \<open>
  A scanner result that is acceptable for the text \<open>s\<close> it was run on: the bound was not
  exhausted, and on success the text left over is shorter than \<open>s\<close>.
\<close>

definition scan_ok :: "py_exception + (json \<times> string) \<Rightarrow> string \<Rightarrow> bool" where
  "scan_ok res s =
     (res \<noteq> Inl RecursionError \<and> (\<forall>v r. res = Inr (v, r) \<longrightarrow> length r < length s))"

section \<open>Properties of the to-do store\<close>

lemma update_fresh: "k \<notin> fst ` set al \<Longrightarrow> AList.update k v al = al @ [(k, v)]"
  by (induction al) auto


lemma delete_filter: "AList.delete i ts = filter (\<lambda>p. fst p \<noteq> i) ts"
  by (induction ts) auto

lemma list_todos_filter:
  "map (\<lambda>(x, y). todo_dict x y) (filter (\<lambda>p. fst p \<noteq> i) ts) =
   filter (\<lambda>d. dict_get d ''id'' \<noteq> Some (JStr i)) (map (\<lambda>(x, y). todo_dict x y) ts)"
  by (induction ts) (auto simp: todo_dict_def)






text \<open>
  C6.  \<open>delete_todo\<close> on a stored id reports the deletion with the title of the entry and
  removes the entries under that id, and nothing else: afterwards \<open>get_todo\<close> on the id
  returns the not-found dictionary, no dictionary returned by \<open>list_todos\<close> carries the
  id, every other id maps to what it did, and \<open>list_todos\<close> returns what it returned
  before without the deleted id, in the same order.  On an absent id \<open>delete_todo\<close>
  returns the not-found text (it raises nothing) and leaves the store as it is.
\<close>

theorem delete_todo_outcomes:
  "(map_of ts i = Some t \<longrightarrow>
      delete_todo i ts =
        (''Todo '' @ [apostrophe] @ title t @ [apostrophe] @ '' deleted.'',
         filter (\<lambda>p. fst p \<noteq> i) ts)
    \<and> fst (get_todo i (snd (delete_todo i ts))) = JDict [(''error'', JStr ''Todo not found'')]
    \<and> (\<forall>d \<in> set (fst (list_todos (snd (delete_todo i ts)))). dict_get d ''id'' \<noteq> Some (JStr i))
    \<and> (\<forall>j. j \<noteq> i \<longrightarrow> map_of (snd (delete_todo i ts)) j = map_of ts j)
    \<and> fst (list_todos (snd (delete_todo i ts))) =
        filter (\<lambda>d. dict_get d ''id'' \<noteq> Some (JStr i)) (fst (list_todos ts)))
   \<and> (map_of ts k = None \<longrightarrow> delete_todo k ts = (''Todo not found.'', ts))"
proof -
  have absent: "delete_todo k ts = (''Todo not found.'', ts)" if "map_of ts k = None"
    using that by (simp add: delete_todo_def)
  have present: "delete_todo i ts =
        (''Todo '' @ [apostrophe] @ title t @ [apostrophe] @ '' deleted.'',
         filter (\<lambda>p. fst p \<noteq> i) ts)" if "map_of ts i = Some t"
    using that by (simp add: delete_todo_def delete_filter)
  have gone: "map_of (filter (\<lambda>p. fst p \<noteq> i) ts) i = None"
    by (induction ts) auto
  have others: "map_of (filter (\<lambda>p. fst p \<noteq> i) ts) j = map_of ts j" if "j \<noteq> i" for j
    using that by (induction ts) auto
  have listed: "fst (list_todos (filter (\<lambda>p. fst p \<noteq> i) ts)) =
        filter (\<lambda>d. dict_get d ''id'' \<noteq> Some (JStr i)) (fst (list_todos ts))"
    by (simp add: list_todos_def list_todos_filter)
  show ?thesis
    using absent by (auto simp: present gone others listed get_todo_def)
qed

theorem delete_todo_outcomes_witness:
  "map_of [(''a'', \<lparr>title = ''x'', completed = False, created_at = ''t''\<rparr>),
           (''b'', \<lparr>title = ''y'', completed = True, created_at = ''t''\<rparr>)] ''a''
     = Some \<lparr>title = ''x'', completed = False, created_at = ''t''\<rparr>
   \<and> map_of [(''a'', \<lparr>title = ''x'', completed = False, created_at = ''t''\<rparr>),
           (''b'', \<lparr>title = ''y'', completed = True, created_at = ''t''\<rparr>)] ''c'' = None
   \<and> delete_todo ''a'' [(''a'', \<lparr>title = ''x'', completed = False, created_at = ''t''\<rparr>),
           (''b'', \<lparr>title = ''y'', completed = True, created_at = ''t''\<rparr>)]
     = (''Todo '' @ [apostrophe] @ ''x'' @ [apostrophe] @ '' deleted.'',
        [(''b'', \<lparr>title = ''y'', completed = True, created_at = ''t''\<rparr>)])
   \<and> delete_todo ''c'' [(''a'', \<lparr>title = ''x'', completed = False, created_at = ''t''\<rparr>),
           (''b'', \<lparr>title = ''y'', completed = True, created_at = ''t''\<rparr>)]
     = (''Todo not found.'', [(''a'', \<lparr>title = ''x'', completed = False, created_at = ''t''\<rparr>),
           (''b'', \<lparr>title = ''y'', completed = True, created_at = ''t''\<rparr>)])"
  using delete_todo_outcomes
    [of "[(''a'', \<lparr>title = ''x'', completed = False, created_at = ''t''\<rparr>),
          (''b'', \<lparr>title = ''y'', completed = True, created_at = ''t''\<rparr>)]" "''a''"
        "\<lparr>title = ''x'', completed = False, created_at = ''t''\<rparr>" "''c''"]
  by simp

text \<open>
  C7.  \<open>get_todo\<close> has no raising path: on an id that is not stored it returns, as its
  ordinary return value, the dictionary \<open>{"error": "Todo not found"}\<close>; on a stored id it
  returns the stored fields behind the id.
\<close>

theorem get_todo_outcomes:
  "(map_of ts k = None \<longrightarrow>
      fst (get_todo k ts) = JDict [(''error'', JStr ''Todo not found'')])
   \<and> (map_of ts i = Some t \<longrightarrow>
      fst (get_todo i ts) =
        JDict [(''id'', JStr i), (''title'', JStr (title t)),
               (''completed'', JBool (completed t)), (''created_at'', JStr (created_at t))])"
  by (simp add: get_todo_def todo_dict_def)

theorem get_todo_outcomes_witness:
  "map_of [(''a'', \<lparr>title = ''x'', completed = False, created_at = ''t''\<rparr>)] ''c'' = None
   \<and> map_of [(''a'', \<lparr>title = ''x'', completed = False, created_at = ''t''\<rparr>)] ''a''
       = Some \<lparr>title = ''x'', completed = False, created_at = ''t''\<rparr>
   \<and> fst (get_todo ''c'' [(''a'', \<lparr>title = ''x'', completed = False, created_at = ''t''\<rparr>)])
       = JDict [(''error'', JStr ''Todo not found'')]
   \<and> fst (get_todo ''a'' [(''a'', \<lparr>title = ''x'', completed = False, created_at = ''t''\<rparr>)])
       = JDict [(''id'', JStr ''a''), (''title'', JStr ''x''),
                (''completed'', JBool False), (''created_at'', JStr ''t'')]"
  using get_todo_outcomes
    [of "[(''a'', \<lparr>title = ''x'', completed = False, created_at = ''t''\<rparr>)]" "''c''" "''a''"
        "\<lparr>title = ''x'', completed = False, created_at = ''t''\<rparr>"]
  by simp

text \<open>
  C9.  For every argument, \<open>debug_error\<close> returns a list of three sets of strings.  A set
  does not record which of its members was written as the role: the second element is
  the same set whichever way round the two strings are given, and for the argument
  \<open>"user"\<close> it is the one-element set \<open>{"user"}\<close>.
\<close>

theorem debug_error_sets:
  "length (debug_error error) = 3
   \<and> debug_error error ! 1 = {error, ''user''}
   \<and> debug_error ''user'' ! 1 = {''user''}
   \<and> card (debug_error ''user'' ! 1) = 1"
  by (auto simp: debug_error_def)

text \<open>
  C10.  The three resource handlers leave the \<open>todos\<close> dictionary exactly as they found
  it, for every store and every argument.
\<close>

theorem resources_read_only:
  "snd (list_todos ts) = ts \<and> snd (get_todo todo_id ts) = ts \<and> snd (greet name ts) = ts"
  by (simp add: list_todos_def get_todo_def greet_def split: option.splits)

section \<open>Properties of the client\<close>


lemma send_message_connected:
  assumes "process self = Some p"
  shows "message_id (snd (send_message self method params)) = message_id self + 1"
    and "\<exists>p'. process (snd (send_message self method params)) = Some p'
          \<and> stdin_written p' =
              stdin_written p @ [encode (request (message_id self + 1) method params)]"
  using assms
  by (auto simp: send_message_def get_next_id_def readline_def Let_def
      split: list.splits sum.splits prod.splits)





lemma send_message_on_dict:
  assumes "process self = Some p" "stdout_pending p = line # rest" "line \<noteq> []"
    "decode line = Inr response"
  shows "fst (send_message self method params) = check_response response"
  using assms
  by (simp add: send_message_def get_next_id_def readline_def Let_def)

text \<open>
  C3.  When the line read by a call decodes to a dictionary: if the dictionary has an
  \<open>error\<close> key the call raises the server-error exception carrying the value under that
  key; if it has none the call returns the value under \<open>result\<close> (and the empty
  dictionary when there is no \<open>result\<close> either); so the call fails exactly when the
  \<open>error\<close> key is present.
\<close>

theorem error_field_raises_else_result:
  "process self = Some p \<Longrightarrow> stdout_pending p = line # rest \<Longrightarrow> line \<noteq> [] \<Longrightarrow>
   decode line = Inr (JDict kvs) \<Longrightarrow>
     (\<forall>payload. map_of kvs ''error'' = Some payload \<longrightarrow>
        fst (send_message self method params) = Inl (ServerError payload))
   \<and> (''error'' \<notin> fst ` set kvs \<longrightarrow>
        (\<forall>r. map_of kvs ''result'' = Some r \<longrightarrow> fst (send_message self method params) = Inr r)
      \<and> (map_of kvs ''result'' = None \<longrightarrow> fst (send_message self method params) = Inr (JDict [])))
   \<and> ((\<exists>e. fst (send_message self method params) = Inl e) \<longleftrightarrow> ''error'' \<in> fst ` set kvs)"
proof -
  assume a: "process self = Some p" "stdout_pending p = line # rest" "line \<noteq> []"
    "decode line = Inr (JDict kvs)"
  have out: "fst (send_message self method params) = check_response (JDict kvs)"
    by (rule send_message_on_dict[OF a])
  have none: "map_of kvs ''error'' = None \<longleftrightarrow> ''error'' \<notin> fst ` set kvs"
    by (rule map_of_eq_None_iff)
  show ?thesis
  proof (cases "map_of kvs ''error''")
    case None
    then show ?thesis
      unfolding out using none by (auto split: option.splits)
  next
    case (Some payload)
    then have "''error'' \<in> fst ` set kvs"
      using none by auto
    with Some show ?thesis
      unfolding out by auto
  qed
qed

lemma decode_example_error:
  "decode (encode (JDict [(''jsonrpc'', JStr ''2.0''), (''id'', JInt 1),
                          (''error'', JDict [(''message'', JStr ''boom'')])]))
     = Inr (JDict [(''jsonrpc'', JStr ''2.0''), (''id'', JInt 1),
                   (''error'', JDict [(''message'', JStr ''boom'')])])"
  by code_simp

lemma decode_example_result:
  "decode (encode (JDict [(''jsonrpc'', JStr ''2.0''), (''id'', JInt 7), (''result'', JInt 42)]))
     = Inr (JDict [(''jsonrpc'', JStr ''2.0''), (''id'', JInt 7), (''result'', JInt 42)])"
  by code_simp

lemma encode_not_empty: "encode m \<noteq> []"
  by (simp add: encode_def str_encode_def)

theorem error_field_raises_else_result_witness:
  "fst (send_message
         ((init ''mcp-server.py'')\<lparr>process := Some \<lparr>stdin_written = [], stdout_pending =
            [encode (JDict [(''jsonrpc'', JStr ''2.0''), (''id'', JInt 1),
                            (''error'', JDict [(''message'', JStr ''boom'')])])]\<rparr>\<rparr>)
         ''tools/call'' JNull)
     = Inl (ServerError (JDict [(''message'', JStr ''boom'')]))
   \<and> fst (send_message
         ((init ''mcp-server.py'')\<lparr>process := Some \<lparr>stdin_written = [], stdout_pending =
            [encode (JDict [(''jsonrpc'', JStr ''2.0''), (''id'', JInt 7), (''result'', JInt 42)])]\<rparr>\<rparr>)
         ''tools/call'' JNull)
     = Inr (JInt 42)"
  using
    error_field_raises_else_result
      [of "(init ''mcp-server.py'')\<lparr>process := Some \<lparr>stdin_written = [], stdout_pending =
            [encode (JDict [(''jsonrpc'', JStr ''2.0''), (''id'', JInt 1),
                            (''error'', JDict [(''message'', JStr ''boom'')])])]\<rparr>\<rparr>"
          "\<lparr>stdin_written = [], stdout_pending =
            [encode (JDict [(''jsonrpc'', JStr ''2.0''), (''id'', JInt 1),
                            (''error'', JDict [(''message'', JStr ''boom'')])])]\<rparr>"
          "encode (JDict [(''jsonrpc'', JStr ''2.0''), (''id'', JInt 1),
                            (''error'', JDict [(''message'', JStr ''boom'')])])"
          "[]"
          "[(''jsonrpc'', JStr ''2.0''), (''id'', JInt 1),
            (''error'', JDict [(''message'', JStr ''boom'')])]"
          "''tools/call''" JNull,
       OF _ _ encode_not_empty decode_example_error]
    error_field_raises_else_result
      [of "(init ''mcp-server.py'')\<lparr>process := Some \<lparr>stdin_written = [], stdout_pending =
            [encode (JDict [(''jsonrpc'', JStr ''2.0''), (''id'', JInt 7), (''result'', JInt 42)])]\<rparr>\<rparr>"
          "\<lparr>stdin_written = [], stdout_pending =
            [encode (JDict [(''jsonrpc'', JStr ''2.0''), (''id'', JInt 7), (''result'', JInt 42)])]\<rparr>"
          "encode (JDict [(''jsonrpc'', JStr ''2.0''), (''id'', JInt 7), (''result'', JInt 42)])"
          "[]"
          "[(''jsonrpc'', JStr ''2.0''), (''id'', JInt 7), (''result'', JInt 42)]"
          "''tools/call''" JNull,
       OF _ _ encode_not_empty decode_example_result]
  by (simp add: init_def)

text \<open>
  C1, as the code has it.  \<open>send_message\<close> never looks at the \<open>id\<close> of the response.  A
  response that decodes to a dictionary whose \<open>id\<close> differs from the id of the request
  just written is handled like any other: the call raises the server-error exception
  when the dictionary has an \<open>error\<close> key and otherwise returns the value under \<open>result\<close>
  (the empty dictionary when there is none); the request written carries the next id.
\<close>

theorem response_id_not_checked:
  "process self = Some p \<Longrightarrow> stdout_pending p = line # rest \<Longrightarrow> line \<noteq> [] \<Longrightarrow>
   decode line = Inr (JDict kvs) \<Longrightarrow>
   map_of kvs ''id'' \<noteq> Some (JInt (message_id self + 1)) \<Longrightarrow>
     fst (send_message self method params) =
       (case map_of kvs ''error'' of
          Some payload \<Rightarrow> Inl (ServerError payload)
        | None \<Rightarrow> Inr (case map_of kvs ''result'' of Some r \<Rightarrow> r | None \<Rightarrow> JDict []))
   \<and> map_option stdin_written (process (snd (send_message self method params))) =
       Some (stdin_written p @ [encode (request (message_id self + 1) method params)])"
proof -
  assume a: "process self = Some p" "stdout_pending p = line # rest" "line \<noteq> []"
    "decode line = Inr (JDict kvs)"
  have "fst (send_message self method params) = check_response (JDict kvs)"
    by (rule send_message_on_dict[OF a])
  moreover have "map_option stdin_written (process (snd (send_message self method params))) =
       Some (stdin_written p @ [encode (request (message_id self + 1) method params)])"
    using send_message_connected(2)[OF a(1)] by auto
  ultimately show ?thesis by simp
qed

theorem response_id_not_checked_witness:
  "map_of [(''jsonrpc'', JStr ''2.0''), (''id'', JInt 7), (''result'', JInt 42)] ''id''
     \<noteq> Some (JInt (message_id
           ((init ''mcp-server.py'')\<lparr>process := Some \<lparr>stdin_written = [], stdout_pending =
              [encode (JDict [(''jsonrpc'', JStr ''2.0''), (''id'', JInt 7),
                              (''result'', JInt 42)])]\<rparr>\<rparr>) + 1))
   \<and> fst (send_message
         ((init ''mcp-server.py'')\<lparr>process := Some \<lparr>stdin_written = [], stdout_pending =
            [encode (JDict [(''jsonrpc'', JStr ''2.0''), (''id'', JInt 7), (''result'', JInt 42)])]\<rparr>\<rparr>)
         ''initialize'' JNull)
     = Inr (JInt 42)"
  using
    response_id_not_checked
      [of "(init ''mcp-server.py'')\<lparr>process := Some \<lparr>stdin_written = [], stdout_pending =
            [encode (JDict [(''jsonrpc'', JStr ''2.0''), (''id'', JInt 7), (''result'', JInt 42)])]\<rparr>\<rparr>"
          "\<lparr>stdin_written = [], stdout_pending =
            [encode (JDict [(''jsonrpc'', JStr ''2.0''), (''id'', JInt 7), (''result'', JInt 42)])]\<rparr>"
          "encode (JDict [(''jsonrpc'', JStr ''2.0''), (''id'', JInt 7), (''result'', JInt 42)])"
          "[]"
          "[(''jsonrpc'', JStr ''2.0''), (''id'', JInt 7), (''result'', JInt 42)]"
          "''initialize''" JNull,
       OF _ _ encode_not_empty decode_example_result]
  by (simp add: init_def)

text \<open>
  The claim C1 as stated fails: the first request of a session carries id 1; the server's
  line decodes to a response with id 7; the call returns the result 42 of that response
  instead of failing.
\<close>

theorem mismatched_response_returned:
  "decode (encode (JDict [(''jsonrpc'', JStr ''2.0''), (''id'', JInt 7), (''result'', JInt 42)]))
     = Inr (JDict [(''jsonrpc'', JStr ''2.0''), (''id'', JInt 7), (''result'', JInt 42)])
   \<and> dict_get (JDict [(''jsonrpc'', JStr ''2.0''), (''id'', JInt 7), (''result'', JInt 42)]) ''id''
       = Some (JInt 7)
   \<and> dict_get (request 1 ''initialize'' JNull) ''id'' = Some (JInt 1)
   \<and> send_message
       ((init ''mcp-server.py'')\<lparr>process := Some \<lparr>stdin_written = [], stdout_pending =
          [encode (JDict [(''jsonrpc'', JStr ''2.0''), (''id'', JInt 7), (''result'', JInt 42)])]\<rparr>\<rparr>)
       ''initialize'' JNull
     = (Inr (JInt 42),
        \<lparr>server_script = ''mcp-server.py'',
         process = Some \<lparr>stdin_written = [encode (request 1 ''initialize'' JNull)],
                          stdout_pending = []\<rparr>,
         message_id = 1\<rparr>)"
  using decode_example_result encode_not_empty
  by (simp add: send_message_def get_next_id_def readline_def init_def Let_def request_def)

section \<open>Round trip of the message codec\<close>

lemma char_eq_nat: "(c = d) = ((of_char c :: nat) = of_char d)"
  by simp

lemma digit_char: "d < 10 \<Longrightarrow> is_digit (char_of (48 + d)) \<and> (of_char (char_of (48 + d)) :: nat) = 48 + d"
  by (simp add: is_digit_def)

lemma str_nat_digits: "\<forall>c \<in> set (str_nat n). is_digit c"
proof (induction n rule: str_nat.induct)
  case (1 n)
  show ?case
  proof (cases "n < 10")
    case True
    then show ?thesis by (subst str_nat.simps) (simp add: digit_char)
  next
    case False
    then show ?thesis using 1 by (subst str_nat.simps) (simp add: digit_char)
  qed
qed

lemma str_nat_not_Nil: "str_nat n \<noteq> []"
  by (subst str_nat.simps) simp

lemma foldl_digits_snoc:
  "foldl (\<lambda>a c. 10 * a + (of_char c - 48)) a0 (ds @ [c]) =
   10 * foldl (\<lambda>a c. 10 * a + (of_char c - 48)) a0 ds + (of_char c - (48::nat))"
  by simp

lemma nat_of_digits_str_nat: "nat_of_digits (str_nat n) = n"
proof (induction n rule: str_nat.induct)
  case (1 n)
  show ?case
  proof (cases "n < 10")
    case True
    then show ?thesis
      by (subst str_nat.simps) (simp add: nat_of_digits_def digit_char)
  next
    case False
    then have ih: "nat_of_digits (str_nat (n div 10)) = n div 10" using 1 by simp
    have "nat_of_digits (str_nat n) = 10 * nat_of_digits (str_nat (n div 10)) + n mod 10"
      using False
      by (subst str_nat.simps) (simp add: nat_of_digits_def digit_char)
    then show ?thesis using ih by simp
  qed
qed

lemma str_nat_hd_zero: "hd (str_nat n) = CHR ''0'' \<Longrightarrow> n = 0"
proof (induction n rule: str_nat.induct)
  case (1 n)
  show ?case
  proof (cases "n < 10")
    case True
    with 1(2) have "char_of (48 + n) = CHR ''0''"
      by (subst (asm) str_nat.simps) simp
    then have "(of_char (char_of (48 + n)) :: nat) = of_char CHR ''0''" by simp
    then show ?thesis using True by (simp add: digit_char)
  next
    case False
    with 1(2) have "hd (str_nat (n div 10)) = CHR ''0''"
      by (subst (asm) str_nat.simps) (simp add: str_nat_not_Nil)
    with 1(1) False have "n div 10 = 0" by simp
    with False show ?thesis by simp
  qed
qed

lemma str_nat_0: "str_nat 0 = ''0''"
  by (subst str_nat.simps) (simp add: char_eq_nat)

lemma value_end_not_float: "value_end rest \<Longrightarrow> \<not> is_float_tail rest"
  by (auto simp: value_end_def is_float_tail_def split: list.splits)

lemma value_end_takeWhile:
  "value_end rest \<Longrightarrow> \<forall>c \<in> set ds. is_digit c \<Longrightarrow>
   takeWhile is_digit (ds @ rest) = ds \<and> dropWhile is_digit (ds @ rest) = rest"
  by (induction ds) (auto simp: value_end_def is_digit_def split: list.splits)

lemma digits_core:
  assumes "value_end rest"
  shows "(case str_nat n @ rest of
            [] \<Rightarrow> None
          | d # r \<Rightarrow>
              if d = CHR ''0'' then Some (number_result neg [d] r)
              else if is_digit d
                then Some (number_result neg (d # takeWhile is_digit r) (dropWhile is_digit r))
              else None)
         = Some (Inr (JInt (if neg then - int n else int n), rest))"
proof (cases "n = 0")
  case True
  then show ?thesis
    using assms
    by (simp add: str_nat_0 number_result_def value_end_not_float nat_of_digits_def)
next
  case False
  obtain d ds where ds: "str_nat n = d # ds"
    using str_nat_not_Nil[of n] by (cases "str_nat n") auto
  have dig: "is_digit d" "\<forall>c \<in> set ds. is_digit c"
    using str_nat_digits[of n] by (simp_all add: ds)
  have nz: "d \<noteq> CHR ''0''"
    using str_nat_hd_zero[of n] False by (auto simp: ds)
  have val: "nat_of_digits (d # ds) = n"
    using nat_of_digits_str_nat[of n] by (simp add: ds)
  have tw: "takeWhile is_digit (ds @ rest) = ds" "dropWhile is_digit (ds @ rest) = rest"
    using value_end_takeWhile[OF assms dig(2)] by simp_all
  have nf: "\<not> is_float_tail rest"
    by (rule value_end_not_float[OF assms])
  show ?thesis
    using dig(1) nz nf
    by (simp add: ds number_result_def tw val)
qed

lemma str_nat_hd_not_minus: "str_nat n = d # ds \<Longrightarrow> d \<noteq> CHR ''-''"
  using str_nat_digits[of n] by (auto simp: is_digit_def)

lemma match_number_str_int:
  assumes "value_end rest"
  shows "match_number (str_int i @ rest) = Some (Inr (JInt i, rest))"
proof (cases "i < 0")
  case True
  then show ?thesis
    using digits_core[OF assms, where n = "nat (- i)" and neg = True]
    by (simp add: match_number_def str_int_def)
next
  case False
  obtain d ds where ds: "str_nat (nat i) = d # ds"
    using str_nat_not_Nil[of "nat i"] by (cases "str_nat (nat i)") auto
  have "d \<noteq> CHR ''-''" using str_nat_hd_not_minus[OF ds] .
  then show ?thesis
    using False digits_core[OF assms, where n = "nat i" and neg = False]
    by (simp add: match_number_def str_int_def ds)
qed

lemma hexval_hexdigit: "k < 16 \<Longrightarrow> hexval (hexdigit k) = Some k"
proof -
  assume "k < 16"
  then have "k \<in> set [0..<16]" by simp
  then show ?thesis
    by (simp add: upt_conv_Cons hexdigit_def hexval_def del: upt_Suc set_upt) (elim disjE; simp)
qed

lemma hexval_zero: "hexval CHR ''0'' = Some 0"
  by (simp add: hexval_def)

lemma scanstring_escape_char:
  "scanstring acc (escape_char c @ sfx) = scanstring (acc @ [c]) sfx"
proof -
  let ?n = "of_char c :: nat"
  have "?n < 256" by (rule nat_of_char_less_256)
  then have lt: "?n div 16 < 16" "?n mod 16 < 16"
    by (arith+)
  have recompose: "char_of (16 * (?n div 16) + ?n mod 16) = c"
    by simp
  consider (short) "c = backslash \<or> c = dquote \<or> c = CHR 0x08 \<or> c = CHR 0x0C \<or> c = CHR 0x0A
        \<or> c = CHR 0x0D \<or> c = CHR 0x09"
    | (plain) "c \<noteq> backslash" "c \<noteq> dquote" "c \<noteq> CHR 0x08" "c \<noteq> CHR 0x0C" "c \<noteq> CHR 0x0A"
        "c \<noteq> CHR 0x0D" "c \<noteq> CHR 0x09" "0x20 \<le> ?n \<and> ?n \<le> 0x7E"
    | (hex) "c \<noteq> backslash" "c \<noteq> dquote" "c \<noteq> CHR 0x08" "c \<noteq> CHR 0x0C" "c \<noteq> CHR 0x0A"
        "c \<noteq> CHR 0x0D" "c \<noteq> CHR 0x09" "\<not> (0x20 \<le> ?n \<and> ?n \<le> 0x7E)"
    by blast
  then show ?thesis
  proof cases
    case short
    then show ?thesis
      by (elim disjE) (simp_all add: escape_char_def unescape_def)
  next
    case plain
    then show ?thesis
      by (simp add: escape_char_def)
  next
    case hex
    then show ?thesis
      using recompose
      by (simp add: escape_char_def hexval_hexdigit[OF lt(1)] hexval_hexdigit[OF lt(2)] hexval_zero)
  qed
qed

lemma scanstring_escaped:
  "scanstring acc (concat (map escape_char s) @ dquote # rest) = Inr (acc @ s, rest)"
  by (induction s arbitrary: acc) (simp_all add: scanstring_escape_char)

lemma str_int_start: "value_start (str_int i)"
proof -
  obtain d ds where ds: "str_nat (nat \<bar>i\<bar>) = d # ds"
    using str_nat_not_Nil[of "nat \<bar>i\<bar>"] by (cases "str_nat (nat \<bar>i\<bar>)") auto
  have "is_digit d" using str_nat_digits[of "nat \<bar>i\<bar>"] by (simp add: ds)
  then show ?thesis
    using ds by (cases "i < 0") (auto simp: value_start_def str_int_def abs_if)
qed

lemma json_dumps_start: "value_start (json_dumps v)"
proof (cases v)
  case (JInt i)
  then show ?thesis using str_int_start by simp
qed (simp_all add: value_start_def encode_basestring_ascii_def)

lemma value_start_append: "value_start s \<Longrightarrow> value_start (s @ t)"
  by (cases s) (simp_all add: value_start_def)

lemma skip_ws_value_start: "value_start s \<Longrightarrow> skip_ws s = s"
  by (cases s) (auto simp: value_start_def skip_ws_def is_ws_def is_digit_def)

lemma skip_ws_space: "skip_ws (CHR '' '' # s) = skip_ws s"
  by (simp add: skip_ws_def is_ws_def)

lemma skip_ws_dumps [simp]:
  "skip_ws (json_dumps v @ t) = json_dumps v @ t"
  "skip_ws (CHR '' '' # json_dumps v @ t) = json_dumps v @ t"
  by (simp_all add: skip_ws_space skip_ws_value_start value_start_append json_dumps_start)

lemma scan_once_JInt:
  assumes "value_end rest"
  shows "scan_once (Suc n) (str_int i @ rest) = Inr (JInt i, rest)"
proof -
  obtain c r where cr: "str_int i = c # r"
    using str_int_start[of i] by (cases "str_int i") (auto simp: value_start_def)
  have c: "c = CHR ''-'' \<or> is_digit c"
  proof (cases "i < 0")
    case True
    then show ?thesis using cr by (simp add: str_int_def)
  next
    case False
    then have "str_nat (nat i) = c # r" using cr by (simp add: str_int_def)
    then show ?thesis using str_nat_digits[of "nat i"] by simp
  qed
  have m: "match_number (c # r @ rest) = Some (Inr (JInt i, rest))"
    using match_number_str_int[OF assms, of i] by (simp add: cr)
  have ne: "c \<noteq> dquote" "c \<noteq> CHR 0x7B" "c \<noteq> CHR 0x5B" "c \<noteq> CHR ''n''" "c \<noteq> CHR ''t''"
    "c \<noteq> CHR ''f''"
    using c by (auto simp: is_digit_def)
  show ?thesis
    unfolding cr by (simp add: m ne)
qed

lemma value_end_simps [simp]:
  "value_end []" "value_end (CHR '','' # s)" "value_end (CHR 0x5D # s)" "value_end (CHR 0x7D # s)"
  by (simp_all add: value_end_def)

lemma skip_ws_delims [simp]:
  "skip_ws (CHR '','' # s) = CHR '','' # s"
  "skip_ws (CHR 0x5D # s) = CHR 0x5D # s"
  "skip_ws (CHR 0x7D # s) = CHR 0x7D # s"
  "skip_ws (CHR '':'' # s) = CHR '':'' # s"
  "skip_ws (dquote # s) = dquote # s"
  "skip_ws (CHR '' '' # dquote # s) = dquote # s"
  by (simp_all add: skip_ws_def is_ws_def)

lemma join_Cons: "join sep (x # xs) = x @ (if xs = [] then [] else sep @ join sep xs)"
  by (cases xs) simp_all

lemma array_loop_join:
  assumes elems: "\<And>x n rest. x \<in> set xs \<Longrightarrow> size x < n \<Longrightarrow> value_end rest \<Longrightarrow>
                    scan_once n (json_dumps x @ rest) = Inr (x, rest)"
  shows "xs \<noteq> [] \<Longrightarrow> size_list size xs < n \<Longrightarrow>
         array_loop n acc (join '', '' (map json_dumps xs) @ CHR 0x5D # rest) =
           Inr (JList (acc @ xs), rest)"
  using elems
proof (induction xs arbitrary: n acc)
  case Nil
  then show ?case by simp
next
  case (Cons x xs)
  from Cons.prems(2) obtain m where n: "n = Suc m" and sx: "size x < m" and sxs: "size_list size xs < m"
    by (cases n) auto
  show ?case
  proof (cases xs)
    case Nil
    have "scan_once m (json_dumps x @ CHR 0x5D # rest) = Inr (x, CHR 0x5D # rest)"
      by (rule Cons.prems(3)) (simp_all add: sx)
    then show ?thesis by (simp add: n Nil)
  next
    case (Cons y ys)
    let ?tail = "join '', '' (map json_dumps xs) @ CHR 0x5D # rest"
    have first: "scan_once m (json_dumps x @ CHR '','' # CHR '' '' # ?tail) =
                 Inr (x, CHR '','' # CHR '' '' # ?tail)"
      by (rule Cons.prems(3)) (simp_all add: sx)
    have next_ws: "skip_ws (CHR '' '' # ?tail) = ?tail"
      by (simp add: Cons join_Cons del: join.simps)
    have rest_ok: "array_loop m (acc @ [x]) ?tail = Inr (JList ((acc @ [x]) @ xs), rest)"
      by (rule Cons.IH) (use Cons.prems(3) sxs Cons in auto)
    have shape: "join '', '' (map json_dumps (x # xs)) @ CHR 0x5D # rest =
                 json_dumps x @ CHR '','' # CHR '' '' # ?tail"
      by (simp add: Cons)
    show ?thesis
      unfolding shape n by (simp add: first next_ws rest_ok del: join.simps)
  qed
qed

lemma object_loop_join:
  assumes vals: "\<And>k v n rest. (k, v) \<in> set kvs \<Longrightarrow> size v < n \<Longrightarrow> value_end rest \<Longrightarrow>
                    scan_once n (json_dumps v @ rest) = Inr (v, rest)"
  shows "kvs \<noteq> [] \<Longrightarrow> distinct (map fst (acc @ kvs)) \<Longrightarrow>
         size_list (size_prod (\<lambda>_. 0) size) kvs < n \<Longrightarrow>
         object_loop n acc (tl (join '', '' (map item kvs)) @ CHR 0x7D # rest) =
           Inr (JDict (acc @ kvs), rest)"
  using vals
proof (induction kvs arbitrary: n acc)
  case Nil
  then show ?case by simp
next
  case (Cons kv kvs)
  obtain k v where kv: "kv = (k, v)" by (cases kv)
  from Cons.prems(3) obtain m where n: "n = Suc m" and sv: "size v < m"
    and skvs: "size_list (size_prod (\<lambda>_. 0) size) kvs < m"
    by (cases n) (auto simp: kv)
  have fresh: "k \<notin> fst ` set acc"
    using Cons.prems(2) by (auto simp: kv)
  have upd: "AList.update k v acc = acc @ [(k, v)]"
    by (rule update_fresh[OF fresh])
  show ?case
  proof (cases kvs)
    case Nil
    have val: "scan_once m (json_dumps v @ CHR 0x7D # rest) = Inr (v, CHR 0x7D # rest)"
      by (rule Cons.prems(4)[of k]) (simp_all add: sv kv)
    have shape: "tl (join '', '' (map item (kv # kvs))) @ CHR 0x7D # rest =
        concat (map escape_char k) @ dquote # CHR '':'' # CHR '' '' # json_dumps v @ CHR 0x7D # rest"
      by (simp add: Nil kv encode_basestring_ascii_def)
    show ?thesis
      unfolding shape n
      by (simp add: scanstring_escaped val upd Nil kv)
  next
    case (Cons kv' kvs')
    define t where "t = tl (join '', '' (map item kvs)) @ CHR 0x7D # rest"
    have tail_q: "join '', '' (map item kvs) @ CHR 0x7D # rest = dquote # t"
      unfolding t_def by (simp add: Cons join_Cons encode_basestring_ascii_def del: join.simps)
    have val: "scan_once m (json_dumps v @ CHR '','' # CHR '' '' # dquote # t) =
               Inr (v, CHR '','' # CHR '' '' # dquote # t)"
      by (rule Cons.prems(4)[of k]) (simp_all add: sv kv)
    have rest_ok: "object_loop m (acc @ [(k, v)]) t = Inr (JDict ((acc @ [(k, v)]) @ kvs), rest)"
      unfolding t_def by (rule Cons.IH) (use Cons.prems(2,4) skvs Cons kv in auto)
    have shape: "tl (join '', '' (map item (kv # kvs))) @ CHR 0x7D # rest =
        concat (map escape_char k) @ dquote # CHR '':'' # CHR '' '' # json_dumps v
          @ CHR '','' # CHR '' '' # dquote # t"
      using tail_q by (simp add: kv Cons join_Cons encode_basestring_ascii_def del: join.simps)
    show ?thesis
      unfolding shape n
      by (simp add: scanstring_escaped val upd rest_ok kv del: join.simps)
  qed
qed

lemma value_start_Cons: "value_start (c # cs) \<Longrightarrow> c \<noteq> CHR 0x5D \<and> \<not> is_ws c"
  by (auto simp: value_start_def is_ws_def is_digit_def)

lemma scan_once_dumps:
  "well_formed v \<Longrightarrow> size v < n \<Longrightarrow> value_end rest \<Longrightarrow>
   scan_once n (json_dumps v @ rest) = Inr (v, rest)"
proof (induction v arbitrary: n rest)
  case JNull
  then obtain m where "n = Suc m" by (cases n) auto
  then show ?case by simp
next
  case (JBool b)
  then obtain m where "n = Suc m" by (cases n) auto
  then show ?case by simp
next
  case (JInt i)
  then obtain m where "n = Suc m" by (cases n) auto
  then show ?case using scan_once_JInt[OF JInt.prems(3)] by simp
next
  case (JStr s)
  then obtain m where "n = Suc m" by (cases n) auto
  then show ?case by (simp add: encode_basestring_ascii_def scanstring_escaped)
next
  case (JList xs)
  from JList.prems(2) obtain m where n: "n = Suc m" and sz: "size_list size xs < m"
    by (cases n) auto
  show ?case
  proof (cases xs)
    case Nil
    then show ?thesis by (simp add: n)
  next
    case (Cons y ys)
    have loop: "array_loop m [] (join '', '' (map json_dumps xs) @ CHR 0x5D # rest) =
                Inr (JList ([] @ xs), rest)"
    proof (rule array_loop_join)
      show "xs \<noteq> []" by (simp add: Cons)
      show "size_list size xs < m" by (rule sz)
      show "scan_once k (json_dumps x @ r) = Inr (x, r)"
        if "x \<in> set xs" "size x < k" "value_end r" for x k r
        using that JList.IH[of x k r] JList.prems(1) by simp
    qed
    define body where "body = join '', '' (map json_dumps xs) @ CHR 0x5D # rest"
    have "value_start body"
      unfolding body_def
      by (simp add: Cons join_Cons value_start_append json_dumps_start del: join.simps)
    then obtain c u where bu: "body = c # u" and c: "c \<noteq> CHR 0x5D" "\<not> is_ws c"
      using value_start_Cons by (cases body) (auto simp: value_start_def)
    have "scan_once (Suc m) (CHR 0x5B # body) = array_loop m [] body"
      using c by (simp add: bu skip_ws_def)
    moreover have "json_dumps (JList xs) @ rest = CHR 0x5B # body"
      by (simp add: body_def)
    ultimately show ?thesis
      using loop by (simp add: n body_def del: join.simps)
  qed
next
  case (JDict kvs)
  from JDict.prems(2) obtain m where n: "n = Suc m"
    and sz: "size_list (size_prod (\<lambda>_. 0) size) kvs < m"
    by (cases n) auto
  show ?case
  proof (cases kvs)
    case Nil
    then show ?thesis by (simp add: n)
  next
    case (Cons kv kvs')
    define t where "t = tl (join '', '' (map item kvs)) @ CHR 0x7D # rest"
    have loop: "object_loop m [] t = Inr (JDict ([] @ kvs), rest)"
      unfolding t_def
    proof (rule object_loop_join)
      show "kvs \<noteq> []" by (simp add: Cons)
      show "distinct (map fst ([] @ kvs))" using JDict.prems(1) by simp
      show "size_list (size_prod (\<lambda>_. 0) size) kvs < m" by (rule sz)
      show "scan_once j (json_dumps v @ r) = Inr (v, r)"
        if "(k, v) \<in> set kvs" "size v < j" "value_end r" for k v j r
        using that JDict.IH[of "(k, v)" v j r] JDict.prems(1) by force
    qed
    have shape: "json_dumps (JDict kvs) @ rest = CHR 0x7B # dquote # t"
      unfolding t_def by (simp add: Cons join_Cons encode_basestring_ascii_def del: join.simps)
    show ?thesis
      unfolding shape n using loop by simp
  qed
qed

lemma printable_hexdigit: "printable (hexdigit k)"
proof -
  have "k mod 16 \<in> set [0..<16]" by simp
  then show ?thesis
    by (simp add: upt_conv_Cons hexdigit_def printable_def del: upt_Suc set_upt) (elim disjE; simp)
qed

lemma printable_digit: "is_digit c \<Longrightarrow> printable c"
  by (simp add: is_digit_def printable_def)

lemma printable_literals [simp]:
  "printable backslash" "printable dquote" "printable CHR ''b''" "printable CHR ''f''"
  "printable CHR ''n''" "printable CHR ''r''" "printable CHR ''t''" "printable CHR ''u''"
  "printable CHR ''0''" "printable CHR ''-''" "printable CHR '',''" "printable CHR '' ''"
  "printable CHR '':''" "printable (CHR 0x5B)" "printable (CHR 0x5D)" "printable (CHR 0x7B)"
  "printable (CHR 0x7D)" "printable CHR ''l''" "printable CHR ''e''" "printable CHR ''a''"
  "printable CHR ''s''"
  by (simp_all add: printable_def)

lemma printable_escape_char: "list_all printable (escape_char c)"
  by (simp add: escape_char_def printable_hexdigit) (simp add: printable_def)

lemma printable_escaped: "list_all printable (concat (map escape_char s))"
  by (induction s) (simp_all add: printable_escape_char)

lemma printable_quoted: "list_all printable (encode_basestring_ascii s)"
  by (simp add: encode_basestring_ascii_def printable_escaped)

lemma printable_str_nat: "list_all printable (str_nat n)"
  using str_nat_digits[of n] by (simp add: list_all_iff printable_digit)

lemma printable_str_int: "list_all printable (str_int i)"
  by (simp add: str_int_def printable_str_nat)

lemma printable_join:
  "list_all (list_all printable) ys \<Longrightarrow> list_all printable (join '', '' ys)"
  by (induction "'', ''" ys rule: join.induct) simp_all

lemma printable_dumps: "list_all printable (json_dumps v)"
proof (induction v)
  case JNull
  show ?case by simp
next
  case (JBool b)
  show ?case by simp
next
  case (JInt i)
  show ?case by (simp add: printable_str_int)
next
  case (JStr s)
  show ?case by (simp add: printable_quoted)
next
  case (JList xs)
  have "list_all (list_all printable) (map json_dumps xs)"
    using JList by (simp add: list_all_iff)
  then have "list_all printable (join '', '' (map json_dumps xs))"
    by (rule printable_join)
  then show ?case by simp
next
  case (JDict kvs)
  have "list_all printable (item kv)" if "kv \<in> set kvs" for kv
  proof -
    obtain k v where kv: "kv = (k, v)" by (cases kv)
    have "list_all printable (json_dumps v)"
      using JDict[of "(k, v)" v] that by (simp add: kv)
    then show ?thesis by (simp add: kv printable_quoted)
  qed
  then have "list_all (list_all printable) (map item kvs)"
    by (simp add: list_all_iff)
  then have "list_all printable (join '', '' (map item kvs))"
    by (rule printable_join)
  then show ?case by simp
qed

lemma length_join: "sum_list (map length ys) \<le> length (join sep ys)"
  by (induction sep ys rule: join.induct) simp_all

lemma size_list_le_sum:
  "(\<And>x. x \<in> set xs \<Longrightarrow> f x + 1 \<le> g x) \<Longrightarrow> size_list f xs \<le> sum_list (map g xs)"
proof (induction xs)
  case Nil
  show ?case by simp
next
  case (Cons a xs)
  have "f a + 1 \<le> g a" by (rule Cons.prems) simp
  moreover have "size_list f xs \<le> sum_list (map g xs)"
  proof (rule Cons.IH)
    fix x assume "x \<in> set xs"
    then show "f x + 1 \<le> g x" using Cons.prems[of x] by simp
  qed
  ultimately show ?case by simp
qed

lemma size_lt_length_dumps: "size v < length (json_dumps v)"
proof (induction v)
  case JNull
  show ?case by simp
next
  case (JBool b)
  show ?case by simp
next
  case (JInt i)
  show ?case
    using str_nat_not_Nil by (simp add: str_int_def)
next
  case (JStr s)
  show ?case by (simp add: encode_basestring_ascii_def)
next
  case (JList xs)
  have "size_list size xs \<le> sum_list (map (\<lambda>x. length (json_dumps x)) xs)"
    by (rule size_list_le_sum) (use JList in \<open>simp add: Suc_le_eq\<close>)
  also have "\<dots> \<le> length (join '', '' (map json_dumps xs))"
    using length_join[of "map json_dumps xs" "'', ''"] by (simp add: comp_def)
  finally show ?case by simp
next
  case (JDict kvs)
  have "size_list (size_prod (\<lambda>_. 0) size) kvs \<le> sum_list (map (\<lambda>kv. length (item kv)) kvs)"
  proof (rule size_list_le_sum)
    fix kv assume mem: "kv \<in> set kvs"
    obtain k v where kv: "kv = (k, v)" by (cases kv)
    have "size v < length (json_dumps v)"
      using JDict[of "(k, v)" v] mem by (simp add: kv)
    then show "size_prod (\<lambda>_. 0) size kv + 1 \<le> length (item kv)"
      by (simp add: kv encode_basestring_ascii_def)
  qed
  also have "\<dots> \<le> length (join '', '' (map item kvs))"
    using length_join[of "map item kvs" "'', ''"] by (simp add: comp_def)
  finally show ?case by simp
qed

lemma json_loads_dumps: "well_formed v \<Longrightarrow> json_loads (json_dumps v) = Inr v"
proof -
  assume wf: "well_formed v"
  have "size v < Suc (2 * length (json_dumps v))"
    using size_lt_length_dumps[of v] by simp
  then have "scan_once (Suc (2 * length (json_dumps v))) (json_dumps v @ []) = Inr (v, [])"
    using scan_once_dumps[OF wf, of "Suc (2 * length (json_dumps v))" "[]"] by simp
  moreover have "skip_ws (json_dumps v) = json_dumps v"
    using skip_ws_dumps(1)[of v "[]"] by simp
  ultimately show ?thesis
    by (simp add: json_loads_def skip_ws_def)
qed

lemma printable_ascii: "printable c \<Longrightarrow> (of_char c :: nat) < 0x80"
  by (simp add: printable_def)

lemma str_encode_ascii: "list_all (\<lambda>c. (of_char c :: nat) < 0x80) s \<Longrightarrow> str_encode s = s"
  by (induction s) (simp_all add: str_encode_def)

lemma not_isspace_start: "value_start s \<Longrightarrow> dropWhile isspace s = s"
  by (cases s) (auto simp: value_start_def isspace_def is_digit_def)

lemma not_isspace_digit: "is_digit c \<Longrightarrow> \<not> isspace c"
  by (simp add: is_digit_def isspace_def)

lemma last_str_int: "\<not> isspace (last (str_int i))"
proof -
  have "last (str_nat n) \<in> set (str_nat n)" for n
    using str_nat_not_Nil by simp
  then have "\<not> isspace (last (str_nat n))" for n
    using str_nat_digits[of n] not_isspace_digit by blast
  then show ?thesis
    using str_nat_not_Nil by (simp add: str_int_def)
qed

lemma last_dumps: "\<not> isspace (last (json_dumps v))"
proof (cases v)
  case (JInt i)
  then show ?thesis by (simp add: last_str_int)
qed (simp_all add: isspace_def encode_basestring_ascii_def)

lemma json_dumps_not_Nil: "json_dumps v \<noteq> []"
  using json_dumps_start[of v] by (auto simp: value_start_def)

lemma dropWhile_rev_last: "s \<noteq> [] \<Longrightarrow> \<not> P (last s) \<Longrightarrow> dropWhile P (rev s) = rev s"
  by (cases s rule: rev_cases) simp_all

lemma strip_record: "strip (json_dumps v @ [newline]) = json_dumps v"
proof -
  have front: "dropWhile isspace (json_dumps v @ [newline]) = json_dumps v @ [newline]"
    by (rule not_isspace_start) (simp add: value_start_append json_dumps_start)
  have rear: "dropWhile isspace (rev (json_dumps v)) = rev (json_dumps v)"
    using json_dumps_not_Nil[of v] last_dumps[of v] by (rule dropWhile_rev_last)
  have nl: "isspace newline" by (simp add: isspace_def)
  show ?thesis
    unfolding strip_def front by (simp add: nl rear)
qed

text \<open>
  C8.  For every message whose dictionaries have pairwise distinct keys, at every depth
  (a Python value as the model has it, so every Request and every Response): the encoding
  is the serialization followed by one newline, the serialization itself contains no
  newline, and decoding the encoding gives the message back.
\<close>

theorem decode_encode:
  "well_formed m \<Longrightarrow>
     decode (encode m) = Inr m
   \<and> encode m = json_dumps m @ [newline]
   \<and> newline \<notin> set (json_dumps m)"
proof -
  assume wf: "well_formed m"
  have pr: "list_all printable (json_dumps m)" by (rule printable_dumps)
  then have ascii: "list_all (\<lambda>c. (of_char c :: nat) < 0x80) (json_dumps m @ [newline])"
    by (simp add: list_all_iff printable_ascii)
  have enc: "encode m = json_dumps m @ [newline]"
    unfolding encode_def by (rule str_encode_ascii[OF ascii])
  have dec: "bytes_decode (json_dumps m @ [newline]) = Inr (json_dumps m @ [newline])"
    using ascii by (simp add: bytes_decode_def)
  have "decode (encode m) = Inr m"
    unfolding enc decode_def dec by (simp add: strip_record json_loads_dumps[OF wf])
  moreover have "newline \<notin> set (json_dumps m)"
    using pr by (auto simp: list_all_iff printable_def)
  ultimately show ?thesis using enc by simp
qed

theorem decode_encode_witness:
  "well_formed (request 1 ''tools/call''
      (JDict [(''name'', JStr ''add_todo''), (''arguments'', JDict [(''title'', JStr ''Buy milk'')])]))
   \<and> decode (encode (request 1 ''tools/call''
      (JDict [(''name'', JStr ''add_todo''), (''arguments'', JDict [(''title'', JStr ''Buy milk'')])])))
     = Inr (request 1 ''tools/call''
      (JDict [(''name'', JStr ''add_todo''), (''arguments'', JDict [(''title'', JStr ''Buy milk'')])]))"
proof -
  have wf: "well_formed (request 1 ''tools/call''
      (JDict [(''name'', JStr ''add_todo''), (''arguments'', JDict [(''title'', JStr ''Buy milk'')])]))"
    by (simp add: request_def)
  from decode_encode [OF wf] wf show ?thesis by blast
qed

section \<open>The bound of the scanner is never exhausted\<close>

lemma skip_ws_le: "length (skip_ws s) \<le> length s"
  by (simp add: skip_ws_def length_dropWhile_le)

lemma skip_ws_Cons_lt: "skip_ws s = c # r \<Longrightarrow> length r < length s"
  using skip_ws_le[of s] by simp

lemma scanstring_result:
  "(scanstring acc s = Inr (x, r) \<longrightarrow> length r < length s)
   \<and> scanstring acc s \<noteq> Inl RecursionError"
proof (induction acc s rule: scanstring.induct)
  case (1 acc)
  show ?case by simp
next
  case (2 acc c cs)
  show ?case
  proof (cases "c = dquote")
    case True
    then show ?thesis by auto
  next
    case nq: False
    show ?thesis
    proof (cases "c = backslash")
      case False
      then show ?thesis using nq 2(3) by auto
    next
      case bs: True
      show ?thesis
      proof (cases cs)
        case Nil
        then show ?thesis using nq bs by simp
      next
        case (Cons e es)
        show ?thesis
        proof (cases "e = CHR ''u''")
          case False
          then show ?thesis
            using nq bs Cons 2(2)[of e es] by (auto split: option.splits)
        next
          case u: True
          show ?thesis
          proof (cases es)
            case Nil
            then show ?thesis using nq bs Cons u by simp
          next
            case e1: (Cons h1 t1)
            show ?thesis
            proof (cases t1)
              case Nil
              then show ?thesis using nq bs Cons u e1 by simp
            next
              case e2: (Cons h2 t2)
              show ?thesis
              proof (cases t2)
                case Nil
                then show ?thesis using nq bs Cons u e1 e2 by simp
              next
                case e3: (Cons h3 t3)
                show ?thesis
                proof (cases t3)
                  case Nil
                  then show ?thesis using nq bs Cons u e1 e2 e3 by simp
                next
                  case e4: (Cons h4 rest)
                  have ih: "(scanstring (acc @ [char_of (16 * a + b)]) rest = Inr (x, r)
                               \<longrightarrow> length r < length rest)
                            \<and> scanstring (acc @ [char_of (16 * a + b)]) rest \<noteq> Inl RecursionError"
                    if "hexval h1 = Some 0" "hexval h2 = Some 0" "hexval h3 = Some a"
                      "hexval h4 = Some b" for a b
                    using 2(1)[OF nq bs Cons u e1 e2 e3 e4 refl _ refl _ refl, of 0 0 a b] that
                    by simp
                  show ?thesis
                  proof (cases "hexval h1 = Some 0 \<and> hexval h2 = Some 0
                                \<and> hexval h3 \<noteq> None \<and> hexval h4 \<noteq> None")
                    case True
                    then obtain a b where ab: "hexval h3 = Some a" "hexval h4 = Some b"
                      by auto
                    have "scanstring acc (c # cs) = scanstring (acc @ [char_of (16 * a + b)]) rest"
                      using nq bs Cons u e1 e2 e3 e4 True ab by simp
                    then show ?thesis
                      using ih[of a b] True ab Cons e1 e2 e3 e4 by auto
                  next
                    case False
                    then show ?thesis
                      using nq bs Cons u e1 e2 e3 e4 by (auto split: option.splits)
                  qed
                qed
              qed
            qed
          qed
        qed
      qed
    qed
  qed
qed

lemma match_number_result:
  "match_number s = Some res \<Longrightarrow>
   res \<noteq> Inl RecursionError \<and> (\<forall>v r. res = Inr (v, r) \<longrightarrow> length r < length s)"
proof -
  have d1: "length (dropWhile is_digit r) < Suc (length r)" for r
    using length_dropWhile_le[of is_digit r] by simp
  have d2: "length (dropWhile is_digit r) < Suc (Suc (length r))" for r
    using length_dropWhile_le[of is_digit r] by simp
  assume "match_number s = Some res"
  then show ?thesis
    by (auto simp: match_number_def number_result_def d1 d2
        split: list.splits if_splits)
qed

lemma scan_ok_simps [simp]:
  "scan_ok (Inl e) s = (e \<noteq> RecursionError)"
  "scan_ok (Inr (v, r)) s = (length r < length s)"
  by (simp_all add: scan_ok_def)

lemma scan_ok_mono: "scan_ok res t \<Longrightarrow> length t \<le> length s \<Longrightarrow> scan_ok res s"
  by (auto simp: scan_ok_def)

lemma scan_once_step:
  assumes A: "\<And>acc t. 2 * length t + 1 < n \<Longrightarrow> scan_ok (array_loop n acc t) t"
    and O: "\<And>acc t. 2 * length t < n \<Longrightarrow> scan_ok (object_loop n acc t) t"
    and fuel: "2 * length s < Suc n"
  shows "scan_ok (scan_once (Suc n) s) s"
proof (cases s)
  case Nil
  then show ?thesis by simp
next
  case (Cons c r)
  consider (str) "c = dquote" | (obj) "c \<noteq> dquote" "c = CHR 0x7B"
    | (arr) "c \<noteq> dquote" "c \<noteq> CHR 0x7B" "c = CHR 0x5B"
    | (other) "c \<noteq> dquote" "c \<noteq> CHR 0x7B" "c \<noteq> CHR 0x5B"
    by blast
  then show ?thesis
  proof cases
    case str
    show ?thesis
    proof (cases "scanstring [] r")
      case (Inl e)
      then show ?thesis using scanstring_result[of "[]" r] str Cons by simp
    next
      case (Inr p)
      obtain x r' where p: "p = (x, r')" by (cases p)
      then show ?thesis using scanstring_result[of "[]" r x r'] Inr str Cons by simp
    qed
  next
    case obj
    show ?thesis
    proof (cases "skip_ws r")
      case Nil
      then show ?thesis using obj Cons by simp
    next
      case sk: (Cons c' r')
      have len: "length r' < length r" by (rule skip_ws_Cons_lt[OF sk])
      show ?thesis
      proof (cases "c' = dquote")
        case True
        have "scan_ok (object_loop n [] r') r'"
          by (rule O) (use len fuel Cons in simp)
        then have "scan_ok (object_loop n [] r') s"
          by (rule scan_ok_mono) (use len Cons in simp)
        then show ?thesis using obj Cons sk True by simp
      next
        case False
        then show ?thesis using obj Cons sk len by simp
      qed
    qed
  next
    case arr
    show ?thesis
    proof (cases "skip_ws r")
      case Nil
      then show ?thesis using arr Cons by simp
    next
      case sk: (Cons c' r')
      have len: "length (c' # r') \<le> length r" using skip_ws_le[of r] by (simp add: sk)
      show ?thesis
      proof (cases "c' = CHR 0x5D")
        case True
        then show ?thesis using arr Cons sk len by simp
      next
        case False
        have "scan_ok (array_loop n [] (c' # r')) (c' # r')"
          by (rule A) (use len fuel Cons in simp)
        then have "scan_ok (array_loop n [] (c' # r')) s"
          by (rule scan_ok_mono) (use len Cons in simp)
        then show ?thesis using arr Cons sk False by simp
      qed
    qed
  next
    case other
    have lit: "take k s = w \<Longrightarrow> length w = k \<Longrightarrow> 0 < k \<Longrightarrow> length (drop k s) < length s" for k w
      by (cases "k \<le> length s") auto
    consider (null) "take 4 s = ''null''"
      | (true) "take 4 s \<noteq> ''null''" "take 4 s = ''true''"
      | (false) "take 4 s \<noteq> ''null''" "take 4 s \<noteq> ''true''" "take 5 s = ''false''"
      | (num) "take 4 s \<noteq> ''null''" "take 4 s \<noteq> ''true''" "take 5 s \<noteq> ''false''"
      by blast
    then show ?thesis
    proof cases
      case null
      have "length (drop 4 s) < length s" by (rule lit[OF null]) simp_all
      then show ?thesis using other null by (simp add: Cons[symmetric]) (simp add: Cons)
    next
      case true
      have "length (drop 4 s) < length s" by (rule lit[OF true(2)]) simp_all
      then show ?thesis using other true by (simp add: Cons[symmetric]) (simp add: Cons)
    next
      case false
      have "length (drop 5 s) < length s" by (rule lit[OF false(3)]) simp_all
      then show ?thesis using other false by (simp add: Cons[symmetric]) (simp add: Cons)
    next
      case num
      show ?thesis
      proof (cases "match_number s")
        case None
        then show ?thesis using other num by (auto simp: Cons)
      next
        case (Some res)
        have "scan_ok res s"
          using match_number_result[OF Some] by (simp add: scan_ok_def)
        then show ?thesis using other num Some by (auto simp: Cons)
      qed
    qed
  qed
qed

lemma array_loop_step:
  assumes S: "\<And>t. 2 * length t < n \<Longrightarrow> scan_ok (scan_once n t) t"
    and A: "\<And>acc t. 2 * length t + 1 < n \<Longrightarrow> scan_ok (array_loop n acc t) t"
    and fuel: "2 * length s + 1 < Suc n"
  shows "scan_ok (array_loop (Suc n) acc s) s"
proof (cases "scan_once n s")
  case (Inl e)
  have "scan_ok (scan_once n s) s" by (rule S) (use fuel in simp)
  then show ?thesis using Inl by simp
next
  case (Inr p)
  obtain v r where p: "p = (v, r)" by (cases p)
  have "scan_ok (scan_once n s) s" by (rule S) (use fuel in simp)
  then have len: "length r < length s" using Inr p by simp
  show ?thesis
  proof (cases "skip_ws r")
    case Nil
    then show ?thesis using Inr p by simp
  next
    case sk: (Cons c r')
    have len': "length r' < length r" by (rule skip_ws_Cons_lt[OF sk])
    consider (close) "c = CHR 0x5D" | (comma) "c \<noteq> CHR 0x5D" "c = CHR '',''"
      | (bad) "c \<noteq> CHR 0x5D" "c \<noteq> CHR '',''"
      by blast
    then show ?thesis
    proof cases
      case close
      then show ?thesis using Inr p sk len len' by simp
    next
      case comma
      have le: "length (skip_ws r') \<le> length r'" by (rule skip_ws_le)
      have "scan_ok (array_loop n (acc @ [v]) (skip_ws r')) (skip_ws r')"
        by (rule A) (use le len len' fuel in simp)
      then have "scan_ok (array_loop n (acc @ [v]) (skip_ws r')) s"
        by (rule scan_ok_mono) (use le len len' in simp)
      then show ?thesis using Inr p sk comma by simp
    next
      case bad
      then show ?thesis using Inr p sk by simp
    qed
  qed
qed

lemma object_loop_step:
  assumes S: "\<And>t. 2 * length t < n \<Longrightarrow> scan_ok (scan_once n t) t"
    and O: "\<And>acc t. 2 * length t < n \<Longrightarrow> scan_ok (object_loop n acc t) t"
    and fuel: "2 * length s < Suc n"
  shows "scan_ok (object_loop (Suc n) acc s) s"
proof (cases "scanstring [] s")
  case (Inl e)
  then show ?thesis using scanstring_result[of "[]" s] by simp
next
  case (Inr p)
  obtain key r1 where p: "p = (key, r1)" by (cases p)
  have l1: "length r1 < length s"
    using scanstring_result[of "[]" s key r1] Inr p by simp
  show ?thesis
  proof (cases "skip_ws r1")
    case Nil
    then show ?thesis using Inr p by simp
  next
    case sk1: (Cons c r2)
    have l2: "length r2 < length r1" by (rule skip_ws_Cons_lt[OF sk1])
    show ?thesis
    proof (cases "c = CHR '':''")
      case False
      then show ?thesis using Inr p sk1 by simp
    next
      case colon: True
      have le3: "length (skip_ws r2) \<le> length r2" by (rule skip_ws_le)
      have ok: "scan_ok (scan_once n (skip_ws r2)) (skip_ws r2)"
        by (rule S) (use le3 l1 l2 fuel in simp)
      show ?thesis
      proof (cases "scan_once n (skip_ws r2)")
        case (Inl e)
        then show ?thesis using ok Inr p sk1 colon by simp
      next
        case val: (Inr q)
        obtain v r3 where q: "q = (v, r3)" by (cases q)
        have l3: "length r3 < length (skip_ws r2)" using ok val q by simp
        show ?thesis
        proof (cases "skip_ws r3")
          case Nil
          then show ?thesis using Inr p sk1 colon val q by simp
        next
          case sk3: (Cons c' r4)
          have l4: "length r4 < length r3" by (rule skip_ws_Cons_lt[OF sk3])
          consider (close) "c' = CHR 0x7D" | (comma) "c' \<noteq> CHR 0x7D" "c' = CHR '',''"
            | (bad) "c' \<noteq> CHR 0x7D" "c' \<noteq> CHR '',''"
            by blast
          then show ?thesis
          proof cases
            case close
            then show ?thesis using Inr p sk1 colon val q sk3 l1 l2 le3 l3 l4 by simp
          next
            case bad
            then show ?thesis using Inr p sk1 colon val q sk3 by simp
          next
            case comma
            show ?thesis
            proof (cases "skip_ws r4")
              case Nil
              then show ?thesis using Inr p sk1 colon val q sk3 comma by simp
            next
              case sk4: (Cons q' r5)
              have l5: "length r5 < length r4" by (rule skip_ws_Cons_lt[OF sk4])
              show ?thesis
              proof (cases "q' = dquote")
                case False
                then show ?thesis using Inr p sk1 colon val q sk3 comma sk4 by simp
              next
                case True
                have "scan_ok (object_loop n (AList.update key v acc) r5) r5"
                  by (rule O) (use l1 l2 le3 l3 l4 l5 fuel in simp)
                then have "scan_ok (object_loop n (AList.update key v acc) r5) s"
                  by (rule scan_ok_mono) (use l1 l2 le3 l3 l4 l5 in simp)
                then show ?thesis using Inr p sk1 colon val q sk3 comma sk4 True by simp
              qed
            qed
          qed
        qed
      qed
    qed
  qed
qed

lemma scanner_fuel:
  "(\<forall>s. 2 * length s < n \<longrightarrow> scan_ok (scan_once n s) s)
   \<and> (\<forall>acc s. 2 * length s + 1 < n \<longrightarrow> scan_ok (array_loop n acc s) s)
   \<and> (\<forall>acc s. 2 * length s < n \<longrightarrow> scan_ok (object_loop n acc s) s)"
proof (induction n)
  case 0
  show ?case by simp
next
  case (Suc n)
  have S: "scan_ok (scan_once n t) t" if "2 * length t < n" for t
    using Suc that by simp
  have A: "scan_ok (array_loop n acc t) t" if "2 * length t + 1 < n" for acc t
    using Suc that by simp
  have O: "scan_ok (object_loop n acc t) t" if "2 * length t < n" for acc t
    using Suc that by simp
  have S': "scan_ok (scan_once (Suc n) s) s" if "2 * length s < Suc n" for s
    by (rule scan_once_step) (use A O that in auto)
  have A': "scan_ok (array_loop (Suc n) acc s) s" if "2 * length s + 1 < Suc n" for acc s
    by (rule array_loop_step) (use S A that in auto)
  have O': "scan_ok (object_loop (Suc n) acc s) s" if "2 * length s < Suc n" for acc s
    by (rule object_loop_step) (use S O that in auto)
  show ?case
    using S' A' O' by (intro conjI allI impI)
qed

lemma json_loads_never_exhausted: "json_loads s \<noteq> Inl RecursionError"
proof -
  define res where "res = scan_once (Suc (2 * length s)) (skip_ws s)"
  have "2 * length (skip_ws s) < Suc (2 * length s)"
    using skip_ws_le[of s] by simp
  then have "scan_ok res (skip_ws s)"
    unfolding res_def using scanner_fuel[of "Suc (2 * length s)"] by blast
  then have "res \<noteq> Inl RecursionError"
    by (simp add: scan_ok_def)
  moreover have "json_loads s =
      (case res of Inl e \<Rightarrow> Inl e
       | Inr (obj, rest) \<Rightarrow> if skip_ws rest = [] then Inr obj else Inl JSONDecodeError)"
    unfolding res_def by (simp only: json_loads_def)
  ultimately show ?thesis
    by (cases res) (auto split: if_splits)
qed

end
